theory Spec2Isabelle
  imports Complex_Main "HOL-Library.Char_ord" "HOL-Library.Sublist" "HOL-Library.Log_Nat"
begin

section \<open>The demand ranking engine of compute\_top10\_demand.py\<close>

text \<open>
  The model follows \<^verbatim>\<open>compute_top10\<close> stage by stage. Python ints are \<^typ>\<open>int\<close>,
  strings are byte lists, and a Python dict is an association list in insertion order,
  since every loop of the program iterates a dict in that order. The program is given
  twice: first with Python's floats as exact reals, for the properties of its control
  flow, its keys, names and weights; then in double arithmetic, with rounding,
  infinities, NaN and the OverflowError of a conversion from \<^verbatim>\<open>int\<close>, for the properties
  that depend on them.
\<close>

subsection \<open>Data\<close>

datatype error = IndexError | KeyError | OverflowError | ZeroDivisionError

text \<open>An entry of the day table is the tuple \<^verbatim>\<open>(orig, avg, cnt)\<close>; \<^verbatim>\<open>avg\<close> may be None.\<close>

type_synonym entry = "string \<times> real option \<times> int"

text \<open>A record of \<^verbatim>\<open>merged\<close> and \<^verbatim>\<open>final_merged\<close>: \<^verbatim>\<open>(orig_name, avg, cnt)\<close>.\<close>

type_synonym demand = "string \<times> real option \<times> int"

text \<open>A row of the result: \<^verbatim>\<open>(orig_name, avg, threshold)\<close>.\<close>

type_synonym ranked = "string \<times> real \<times> real"

type_synonym 'v dict = "(string \<times> 'v) list"

text \<open>\<^verbatim>\<open>d[k] = v\<close>: an existing key keeps its position, a new key goes to the end.\<close>

fun dict_set :: "'v dict \<Rightarrow> string \<Rightarrow> 'v \<Rightarrow> 'v dict" where
  "dict_set [] k v = [(k, v)]"
| "dict_set ((k', v') # d) k v = (if k' = k then (k, v) # d else (k', v') # dict_set d k v)"

text \<open>\<^verbatim>\<open>d[k]\<close> raises KeyError on a missing key.\<close>

definition dict_get :: "'v dict \<Rightarrow> string \<Rightarrow> error + 'v" where
  "dict_get d k = (case map_of d k of None \<Rightarrow> Inl KeyError | Some v \<Rightarrow> Inr v)"

subsection \<open>Loading the day table\<close>

text \<open>
  The grouping loop of \<^verbatim>\<open>load_day_averages\<close>, on rows whose three fields have already
  been stripped and parsed: rows with an empty crop are skipped, and
  \<^verbatim>\<open>d.setdefault(key, []).append((crop, avg, cnt))\<close> files each row under its
  lower-cased name. \<^verbatim>\<open>str.lower\<close> is the parameter \<open>lower\<close>.
\<close>

fun load_rows ::
  "(string \<Rightarrow> string) \<Rightarrow> (string \<times> 'a \<times> 'b) list \<Rightarrow> (string \<times> 'a \<times> 'b) list dict
     \<Rightarrow> (string \<times> 'a \<times> 'b) list dict" where
  "load_rows lower [] d = d"
| "load_rows lower ((crop, avg, cnt) # rs) d =
     (if crop = [] then load_rows lower rs d
      else let key = lower crop in
        load_rows lower rs
          (dict_set d key ((case map_of d key of None \<Rightarrow> [] | Some es \<Rightarrow> es) @ [(crop, avg, cnt)])))"

definition load_day_averages ::
  "(string \<Rightarrow> string) \<Rightarrow> (string \<times> 'a \<times> 'b) list \<Rightarrow> (string \<times> 'a \<times> 'b) list dict" where
  "load_day_averages lower rows = load_rows lower rows []"

subsection \<open>Aggregation of one key (lines 67--91)\<close>

text \<open>The inner loop, with the state \<^verbatim>\<open>(total_weighted, total_count, chosen_name)\<close>.\<close>

fun agg_loop :: "entry list \<Rightarrow> real \<times> int \<times> string \<Rightarrow> real \<times> int \<times> string" where
  "agg_loop [] acc = acc"
| "agg_loop ((orig, avg, cnt) # es) (total_weighted, total_count, chosen_name) =
     (if avg = None \<or> cnt = 0 then
        (if avg \<noteq> None \<and> cnt = 0
         then agg_loop es (total_weighted + the avg, total_count + 1, chosen_name)
         else agg_loop es (total_weighted, total_count, chosen_name))
      else agg_loop es (total_weighted + the avg * of_int cnt, total_count + cnt, orig))"

text \<open>The fallback loop: the first entry with an average, as \<^verbatim>\<open>(orig, avg, cnt or 0)\<close>.\<close>

fun pick_first :: "entry list \<Rightarrow> demand option" where
  "pick_first [] = None"
| "pick_first ((orig, avg, cnt) # es) =
     (if avg \<noteq> None then Some (orig, avg, if cnt \<noteq> 0 then cnt else 0) else pick_first es)"

text \<open>
  The body of the outer loop for one key. \<^verbatim>\<open>entries[0][0]\<close> raises IndexError on an
  empty list. The result None means that nothing is stored under the key.
\<close>

definition aggregate :: "entry list \<Rightarrow> error + demand option" where
  "aggregate entries =
     (case entries of
        [] \<Rightarrow> Inl IndexError
      | e # _ \<Rightarrow>
          (case agg_loop entries (0, 0, fst e) of
             (total_weighted, total_count, chosen_name) \<Rightarrow>
               Inr (if total_count > 0
                    then Some (chosen_name, Some (total_weighted / of_int total_count), total_count)
                    else pick_first entries)))"

fun aggregate_all :: "entry list dict \<Rightarrow> demand dict \<Rightarrow> error + demand dict" where
  "aggregate_all [] merged = Inr merged"
| "aggregate_all ((key, entries) # day) merged =
     (case aggregate entries of
        Inl e \<Rightarrow> Inl e
      | Inr None \<Rightarrow> aggregate_all day merged
      | Inr (Some r) \<Rightarrow> aggregate_all day (dict_set merged key r))"

subsection \<open>Merging anagram keys (lines 95--114)\<close>

text \<open>\<^verbatim>\<open>"".join(sorted(key))\<close>\<close>

definition signature :: "string \<Rightarrow> string" where
  "signature key = sort key"

text \<open>The search loop over \<^verbatim>\<open>list(final_merged.keys())\<close>; it stops at the first hit.\<close>

fun find_existing :: "string list \<Rightarrow> string \<Rightarrow> string option" where
  "find_existing [] s = None"
| "find_existing (existing_key # ks) s =
     (if signature existing_key = s then Some existing_key else find_existing ks s)"

text \<open>
  Python's \<^verbatim>\<open>x or y\<close> on an optional float: \<^verbatim>\<open>x\<close> is falsy when it is None and
  also when it is \<^verbatim>\<open>0.0\<close>.
\<close>

definition truthy :: "real option \<Rightarrow> bool" where
  "truthy x = (case x of None \<Rightarrow> False | Some v \<Rightarrow> v \<noteq> 0)"

definition py_or :: "real option \<Rightarrow> real option \<Rightarrow> real option" where
  "py_or x y = (if truthy x then x else y)"

text \<open>The found branch: the new value of \<^verbatim>\<open>final_merged[found]\<close>.\<close>

definition merge_into :: "demand \<Rightarrow> demand \<Rightarrow> demand" where
  "merge_into prev cur =
     (case prev of (prev_orig, prev_avg, prev_cnt) \<Rightarrow>
      case cur of (orig_name, avg, cnt) \<Rightarrow>
        let total_cnt = prev_cnt + cnt;
            new_avg =
              (if total_cnt > 0
               then Some ((the (py_or prev_avg (Some 0)) * of_int prev_cnt
                           + the (py_or avg (Some 0)) * of_int cnt) / of_int total_cnt)
               else py_or prev_avg avg)
        in (prev_orig, new_avg, total_cnt))"

text \<open>
  The body of the loop over \<^verbatim>\<open>merged.items()\<close>. \<^verbatim>\<open>if found:\<close> is also false for a
  found key that is the empty string.
\<close>

definition merge_step :: "demand dict \<Rightarrow> string \<Rightarrow> demand \<Rightarrow> error + demand dict" where
  "merge_step final_merged key cur =
     (case find_existing (map fst final_merged) (signature key) of
        None \<Rightarrow> Inr (dict_set final_merged key cur)
      | Some found \<Rightarrow>
          if found \<noteq> [] then
            (case dict_get final_merged found of
               Inl e \<Rightarrow> Inl e
             | Inr prev \<Rightarrow> Inr (dict_set final_merged found (merge_into prev cur)))
          else Inr (dict_set final_merged key cur))"

fun equivalence_merge :: "demand dict \<Rightarrow> demand dict \<Rightarrow> error + demand dict" where
  "equivalence_merge [] final_merged = Inr final_merged"
| "equivalence_merge ((key, cur) # merged) final_merged =
     (case merge_step final_merged key cur of
        Inl e \<Rightarrow> Inl e
      | Inr final_merged' \<Rightarrow> equivalence_merge merged final_merged')"

subsection \<open>Matching against the thresholds and ranking (lines 116--128)\<close>

fun match_loop :: "demand dict \<Rightarrow> (string \<rightharpoonup> real) \<Rightarrow> ranked list" where
  "match_loop [] peak = []"
| "match_loop ((key, (orig_name, avg, cnt)) # final_merged) peak =
     (if avg = None then match_loop final_merged peak
      else if peak key = None then match_loop final_merged peak
      else if the avg \<ge> the (peak key)
           then (orig_name, the avg, the (peak key)) # match_loop final_merged peak
           else match_loop final_merged peak)"

text \<open>
  \<^verbatim>\<open>matched.sort(key=lambda x: x[1], reverse=True)\<close> is a stable sort in descending
  order of the key, which is a stable ascending sort on the negated key; then
  \<^verbatim>\<open>matched[:10]\<close>.
\<close>

definition sort_desc :: "ranked list \<Rightarrow> ranked list" where
  "sort_desc matched = sort_key (\<lambda>x. - fst (snd x)) matched"

definition threshold_ranker :: "demand dict \<Rightarrow> (string \<rightharpoonup> real) \<Rightarrow> ranked list" where
  "threshold_ranker final_merged peak = take 10 (sort_desc (match_loop final_merged peak))"

definition compute_top10 :: "entry list dict \<Rightarrow> (string \<rightharpoonup> real) \<Rightarrow> error + ranked list" where
  "compute_top10 day peak =
     (case aggregate_all day [] of
        Inl e \<Rightarrow> Inl e
      | Inr merged \<Rightarrow>
          (case equivalence_merge merged [] of
             Inl e \<Rightarrow> Inl e
           | Inr final_merged \<Rightarrow> Inr (threshold_ranker final_merged peak)))"

subsection \<open>The aggregation rule in the words of the specification\<close>

text \<open>
  What one entry adds to the weighted sum and to the weight total: nothing without an
  average, \<open>(average * count, count)\<close> for a positive count, \<open>(average, 1)\<close> for a
  count of zero. Sample counts are non-negative in the data model (\<open>counts_nonneg\<close>).
\<close>

definition contribution :: "entry \<Rightarrow> real \<times> int" where
  "contribution e =
     (case e of (orig, avg, cnt) \<Rightarrow>
        (case avg of
           None \<Rightarrow> (0, 0)
         | Some a \<Rightarrow> if cnt > 0 then (a * of_int cnt, cnt) else (a, 1)))"

definition weighted_sum :: "entry list \<Rightarrow> real" where
  "weighted_sum es = sum_list (map (fst \<circ> contribution) es)"

definition weight_total :: "entry list \<Rightarrow> int" where
  "weight_total es = sum_list (map (snd \<circ> contribution) es)"

definition counts_nonneg :: "entry list \<Rightarrow> bool" where
  "counts_nonneg es = list_all (\<lambda>e. 0 \<le> snd (snd e)) es"

subsection \<open>Auxiliary notions for the merger\<close>

text \<open>
  The keys of a dict with the display names stored under them, and the entries of a list
  whose signature has not occurred before (neither in \<open>S\<close> nor earlier in the list).
\<close>

definition names :: "demand dict \<Rightarrow> (string \<times> string) list" where
  "names d = map (\<lambda>(k, n, a, c). (k, n)) d"

fun first_by_sig :: "string set \<Rightarrow> (string \<times> 'a) list \<Rightarrow> (string \<times> 'a) list" where
  "first_by_sig S [] = []"
| "first_by_sig S ((k, v) # xs) =
     (if signature k \<in> S then first_by_sig S xs
      else (k, v) # first_by_sig (insert (signature k) S) xs)"

subsection \<open>Predicates of the statements\<close>

text \<open>
  Every record has an average; every record has a weight of at least 1; every key of a
  day table has at least one entry.
\<close>

definition avg_present :: "demand dict \<Rightarrow> bool" where
  "avg_present d = list_all (\<lambda>(k, n, a, c). a \<noteq> None) d"

definition weight_positive :: "demand dict \<Rightarrow> bool" where
  "weight_positive d = list_all (\<lambda>(k, n, a, c). 1 \<le> c) d"

definition entries_nonempty :: "'a list dict \<Rightarrow> bool" where
  "entries_nonempty day = list_all (\<lambda>(k, es). es \<noteq> []) day"

subsection \<open>The groups formed by the merger\<close>






section \<open>The program in double arithmetic\<close>

text \<open>
  The same program with Python's floats as IEEE doubles. A double is a finite value (a
  rational number; the sign of a zero is not modelled, since no test, comparison or
  operation of the program depends on it), plus or minus infinity, or NaN.
\<close>

datatype double = Finite rat | PInf | NInf | NaN

text \<open>
  Rounding to the nearest double, ties to the even significand: \<open>rhe\<close> rounds a rational
  to the nearest integer, ties to even; \<open>expo x\<close> is the binary exponent of a positive
  \<open>x\<close>, with \<open>2 powi expo x \<le> x < 2 powi (expo x + 1)\<close>; the spacing of the doubles around
  \<open>x\<close> is \<open>2 powi (expo x - 52)\<close>, and \<open>2 powi (- 1074)\<close> in the subnormal range; a
  rounded value of magnitude \<open>2 ^ 1024\<close> or more is an infinity.
\<close>

definition rhe :: "rat \<Rightarrow> int" where
  "rhe t = (let f = \<lfloor>t\<rfloor>; r = t - of_int f
            in if r < 1 / 2 then f else if 1 / 2 < r then f + 1
               else if even f then f else f + 1)"

definition expo :: "rat \<Rightarrow> int" where
  "expo x = (case quotient_of x of (n, d) \<Rightarrow>
               let g = bitlen n - bitlen d in if 2 powi g \<le> x then g else g - 1)"

definition round_val :: "rat \<Rightarrow> rat" where
  "round_val x =
     (if x = 0 then 0
      else let p = max (expo \<bar>x\<bar> - 52) (- 1074)
           in of_int (rhe (x / 2 powi p)) * 2 powi p)"

definition round_double :: "rat \<Rightarrow> double" where
  "round_double x =
     (let v = round_val x
      in if 2 ^ 1024 \<le> v then PInf else if v \<le> - (2 ^ 1024) then NInf else Finite v)"

text \<open>
  An \<^verbatim>\<open>int\<close> operand of \<^verbatim>\<open>float * int\<close> and \<^verbatim>\<open>float / int\<close> is converted to the nearest
  double first, and the conversion raises OverflowError when that double would not be
  finite.
\<close>

definition int_to_double :: "int \<Rightarrow> error + double" where
  "int_to_double n =
     (case round_double (of_int n) of Finite v \<Rightarrow> Inr (Finite v) | _ \<Rightarrow> Inl OverflowError)"


type_synonym entry_m = "string \<times> double option \<times> int"
type_synonym demand_m = "string \<times> double option \<times> int"
type_synonym ranked_m = "string \<times> double \<times> double"

text \<open>
  Sum, product and quotient of doubles: the exact result rounded, with the IEEE rules for
  infinities and NaN. A division by zero raises ZeroDivisionError in Python.
\<close>

fun fadd :: "double \<Rightarrow> double \<Rightarrow> double" where
  "fadd (Finite a) (Finite b) = round_double (a + b)"
| "fadd NaN _ = NaN"
| "fadd _ NaN = NaN"
| "fadd PInf NInf = NaN"
| "fadd NInf PInf = NaN"
| "fadd PInf _ = PInf"
| "fadd _ PInf = PInf"
| "fadd NInf _ = NInf"
| "fadd _ NInf = NInf"

fun fmul :: "double \<Rightarrow> double \<Rightarrow> double" where
  "fmul (Finite a) (Finite b) = round_double (a * b)"
| "fmul NaN _ = NaN"
| "fmul _ NaN = NaN"
| "fmul (Finite a) PInf = (if a = 0 then NaN else if 0 < a then PInf else NInf)"
| "fmul (Finite a) NInf = (if a = 0 then NaN else if 0 < a then NInf else PInf)"
| "fmul PInf (Finite b) = (if b = 0 then NaN else if 0 < b then PInf else NInf)"
| "fmul NInf (Finite b) = (if b = 0 then NaN else if 0 < b then NInf else PInf)"
| "fmul PInf PInf = PInf"
| "fmul NInf NInf = PInf"
| "fmul PInf NInf = NInf"
| "fmul NInf PInf = NInf"

fun fdiv :: "double \<Rightarrow> double \<Rightarrow> error + double" where
  "fdiv a (Finite b) =
     (if b = 0 then Inl ZeroDivisionError
      else case a of
        Finite x \<Rightarrow> Inr (round_double (x / b))
      | PInf \<Rightarrow> Inr (if 0 < b then PInf else NInf)
      | NInf \<Rightarrow> Inr (if 0 < b then NInf else PInf)
      | NaN \<Rightarrow> Inr NaN)"
| "fdiv NaN _ = Inr NaN"
| "fdiv _ NaN = Inr NaN"
| "fdiv (Finite x) _ = Inr (Finite 0)"
| "fdiv _ _ = Inr NaN"

text \<open>\<open>fle a b\<close> is \<^verbatim>\<open>a <= b\<close>: false whenever an operand is NaN.\<close>

fun fle :: "double \<Rightarrow> double \<Rightarrow> bool" where
  "fle NaN _ = False"
| "fle _ NaN = False"
| "fle (Finite a) (Finite b) = (a \<le> b)"
| "fle NInf _ = True"
| "fle _ PInf = True"
| "fle _ _ = False"

text \<open>The truth value of an optional float: None and zero are falsy, NaN is truthy.\<close>

definition truthy_m :: "double option \<Rightarrow> bool" where
  "truthy_m x = (case x of None \<Rightarrow> False | Some (Finite v) \<Rightarrow> v \<noteq> 0 | Some _ \<Rightarrow> True)"

definition py_or_m :: "double option \<Rightarrow> double option \<Rightarrow> double option" where
  "py_or_m x y = (if truthy_m x then x else y)"

text \<open>
  The three stages, line by line as before, with every arithmetic operation of the source
  in double arithmetic; the suffix \<open>_m\<close> marks the machine version of a function.
\<close>

fun agg_loop_m :: "entry_m list \<Rightarrow> double \<times> int \<times> string \<Rightarrow> error + double \<times> int \<times> string" where
  "agg_loop_m [] acc = Inr acc"
| "agg_loop_m ((orig, avg, cnt) # es) (total_weighted, total_count, chosen_name) =
     (if avg = None \<or> cnt = 0 then
        (if avg \<noteq> None \<and> cnt = 0
         then agg_loop_m es (fadd total_weighted (the avg), total_count + 1, chosen_name)
         else agg_loop_m es (total_weighted, total_count, chosen_name))
      else
        (case int_to_double cnt of
           Inl err \<Rightarrow> Inl err
         | Inr c \<Rightarrow>
             agg_loop_m es (fadd total_weighted (fmul (the avg) c), total_count + cnt, orig)))"

fun pick_first_m :: "entry_m list \<Rightarrow> demand_m option" where
  "pick_first_m [] = None"
| "pick_first_m ((orig, avg, cnt) # es) =
     (if avg \<noteq> None then Some (orig, avg, if cnt \<noteq> 0 then cnt else 0) else pick_first_m es)"

definition aggregate_m :: "entry_m list \<Rightarrow> error + demand_m option" where
  "aggregate_m entries =
     (case entries of
        [] \<Rightarrow> Inl IndexError
      | e # _ \<Rightarrow>
          (case agg_loop_m entries (Finite 0, 0, fst e) of
             Inl err \<Rightarrow> Inl err
           | Inr (total_weighted, total_count, chosen_name) \<Rightarrow>
               if total_count > 0 then
                 (case int_to_double total_count of
                    Inl err \<Rightarrow> Inl err
                  | Inr c \<Rightarrow>
                      (case fdiv total_weighted c of
                         Inl err \<Rightarrow> Inl err
                       | Inr a \<Rightarrow> Inr (Some (chosen_name, Some a, total_count))))
               else Inr (pick_first_m entries)))"

fun aggregate_all_m :: "entry_m list dict \<Rightarrow> demand_m dict \<Rightarrow> error + demand_m dict" where
  "aggregate_all_m [] merged = Inr merged"
| "aggregate_all_m ((key, entries) # day) merged =
     (case aggregate_m entries of
        Inl e \<Rightarrow> Inl e
      | Inr None \<Rightarrow> aggregate_all_m day merged
      | Inr (Some r) \<Rightarrow> aggregate_all_m day (dict_set merged key r))"

definition merge_into_m :: "demand_m \<Rightarrow> demand_m \<Rightarrow> error + demand_m" where
  "merge_into_m prev cur =
     (case prev of (prev_orig, prev_avg, prev_cnt) \<Rightarrow>
      case cur of (orig_name, avg, cnt) \<Rightarrow>
        let total_cnt = prev_cnt + cnt in
        if total_cnt > 0 then
          (case int_to_double prev_cnt of
             Inl err \<Rightarrow> Inl err
           | Inr pc \<Rightarrow>
               (case int_to_double cnt of
                  Inl err \<Rightarrow> Inl err
                | Inr c \<Rightarrow>
                    let total_weight =
                          fadd (fmul (the (py_or_m prev_avg (Some (Finite 0)))) pc)
                               (fmul (the (py_or_m avg (Some (Finite 0)))) c)
                    in (case int_to_double total_cnt of
                          Inl err \<Rightarrow> Inl err
                        | Inr tc \<Rightarrow>
                            (case fdiv total_weight tc of
                               Inl err \<Rightarrow> Inl err
                             | Inr new_avg \<Rightarrow> Inr (prev_orig, Some new_avg, total_cnt)))))
        else Inr (prev_orig, py_or_m prev_avg avg, total_cnt))"

definition merge_step_m :: "demand_m dict \<Rightarrow> string \<Rightarrow> demand_m \<Rightarrow> error + demand_m dict" where
  "merge_step_m final_merged key cur =
     (case find_existing (map fst final_merged) (signature key) of
        None \<Rightarrow> Inr (dict_set final_merged key cur)
      | Some found \<Rightarrow>
          if found \<noteq> [] then
            (case dict_get final_merged found of
               Inl e \<Rightarrow> Inl e
             | Inr prev \<Rightarrow>
                 (case merge_into_m prev cur of
                    Inl e \<Rightarrow> Inl e
                  | Inr new \<Rightarrow> Inr (dict_set final_merged found new)))
          else Inr (dict_set final_merged key cur))"

fun equivalence_merge_m :: "demand_m dict \<Rightarrow> demand_m dict \<Rightarrow> error + demand_m dict" where
  "equivalence_merge_m [] final_merged = Inr final_merged"
| "equivalence_merge_m ((key, cur) # merged) final_merged =
     (case merge_step_m final_merged key cur of
        Inl e \<Rightarrow> Inl e
      | Inr final_merged' \<Rightarrow> equivalence_merge_m merged final_merged')"

fun match_loop_m :: "demand_m dict \<Rightarrow> (string \<rightharpoonup> double) \<Rightarrow> ranked_m list" where
  "match_loop_m [] peak = []"
| "match_loop_m ((key, (orig_name, avg, cnt)) # final_merged) peak =
     (if avg = None then match_loop_m final_merged peak
      else if peak key = None then match_loop_m final_merged peak
      else if fle (the (peak key)) (the avg)
           then (orig_name, the avg, the (peak key)) # match_loop_m final_merged peak
           else match_loop_m final_merged peak)"

text \<open>
  \<^verbatim>\<open>matched.sort(key=lambda x: x[1], reverse=True)\<close> as a stable insertion sort in
  descending order: an element goes behind every element whose key is not smaller. No
  key is NaN, because a NaN average fails the test \<^verbatim>\<open>avg >= threshold\<close>.
\<close>

fun insert_desc :: "ranked_m \<Rightarrow> ranked_m list \<Rightarrow> ranked_m list" where
  "insert_desc x [] = [x]"
| "insert_desc x (y # ys) =
     (if fle (fst (snd x)) (fst (snd y)) then y # insert_desc x ys else x # y # ys)"

definition sort_desc_m :: "ranked_m list \<Rightarrow> ranked_m list" where
  "sort_desc_m matched = foldl (\<lambda>sorted x. insert_desc x sorted) [] matched"

definition compute_top10_m :: "entry_m list dict \<Rightarrow> (string \<rightharpoonup> double) \<Rightarrow> error + ranked_m list" where
  "compute_top10_m day peak =
     (case aggregate_all_m day [] of
        Inl e \<Rightarrow> Inl e
      | Inr merged \<Rightarrow>
          (case equivalence_merge_m merged [] of
             Inl e \<Rightarrow> Inl e
           | Inr final_merged \<Rightarrow> Inr (take 10 (sort_desc_m (match_loop_m final_merged peak)))))"










section \<open>Properties\<close>

subsection \<open>The weighted mean of one key\<close>

lemma agg_loop_sums:
  "counts_nonneg es \<Longrightarrow>
   fst (agg_loop es (tw, tc, n)) = tw + weighted_sum es \<and>
   fst (snd (agg_loop es (tw, tc, n))) = tc + weight_total es"
proof (induction es arbitrary: tw tc n)
  case Nil
  then show ?case by (simp add: weighted_sum_def weight_total_def)
next
  case (Cons e es)
  obtain orig avg cnt where e: "e = (orig, avg, cnt)" by (cases e)
  from Cons.prems have nn: "counts_nonneg es" and c: "0 \<le> cnt"
    by (simp_all add: counts_nonneg_def e)
  note IH = Cons.IH [OF nn]
  show ?case
  proof (cases avg)
    case None
    then show ?thesis using IH [of tw tc n]
      by (simp add: e weighted_sum_def weight_total_def contribution_def)
  next
    case (Some a)
    show ?thesis
    proof (cases "cnt = 0")
      case True
      then show ?thesis using IH [of "tw + a" "tc + 1" n] Some
        by (simp add: e weighted_sum_def weight_total_def contribution_def)
    next
      case False
      with c have "0 < cnt" by simp
      then show ?thesis using IH [of "tw + a * of_int cnt" "tc + cnt" orig] Some False
        by (simp add: e weighted_sum_def weight_total_def contribution_def)
    qed
  qed
qed




subsection \<open>Sorting and truncation\<close>

lemma sort_desc_sorted: "sorted_wrt (\<lambda>x y. fst (snd y) \<le> fst (snd x)) (sort_desc xs)"
proof -
  have "sorted (map (\<lambda>x. - fst (snd x)) (sort_key (\<lambda>x. - fst (snd x)) xs))"
    by (rule sorted_sort_key)
  then show ?thesis
    by (simp add: sort_desc_def sorted_wrt_map)
qed

lemma sort_desc_stable:
  "filter (\<lambda>r. fst (snd r) = v) (sort_desc xs) = filter (\<lambda>r. fst (snd r) = v) xs"
  using sort_key_stable [of "\<lambda>x. - fst (snd x)" "- v" xs]
  by (simp add: sort_desc_def)

text \<open>
  Claim C5. The list returned by the Threshold Ranker is sorted by observed average in
  descending order; the results with any one average \<open>v\<close> appear in the order in which
  the matching loop produced them (the output restricted to \<open>v\<close> is an initial part of
  the matched list restricted to \<open>v\<close>); and the list has the smaller of 10 and the
  number of matched records as its length, so never more than 10 elements.
\<close>

theorem ranker_sorted_stable_top10:
  "sorted_wrt (\<lambda>x y. fst (snd x) \<ge> fst (snd y)) (threshold_ranker final_merged peak) \<and>
   prefix (filter (\<lambda>r. fst (snd r) = v) (threshold_ranker final_merged peak))
          (filter (\<lambda>r. fst (snd r) = v) (match_loop final_merged peak)) \<and>
   length (threshold_ranker final_merged peak) = min 10 (length (match_loop final_merged peak)) \<and>
   length (threshold_ranker final_merged peak) \<le> 10"
proof -
  let ?m = "match_loop final_merged peak"
  have s: "sorted_wrt (\<lambda>x y. fst (snd x) \<ge> fst (snd y)) (take 10 (sort_desc ?m))"
    using sort_desc_sorted [of ?m] by (rule sorted_wrt_take)
  have "prefix (filter (\<lambda>r. fst (snd r) = v) (take 10 (sort_desc ?m)))
               (filter (\<lambda>r. fst (snd r) = v) (sort_desc ?m))"
    by (rule filter_mono_prefix) (rule take_is_prefix)
  then have p: "prefix (filter (\<lambda>r. fst (snd r) = v) (take 10 (sort_desc ?m)))
               (filter (\<lambda>r. fst (snd r) = v) ?m)"
    by (simp only: sort_desc_stable)
  have l: "length (take 10 (sort_desc ?m)) = min 10 (length ?m)"
    by (simp add: sort_desc_def)
  from s p l show ?thesis
    by (simp add: threshold_ranker_def)
qed

subsection \<open>Dicts and the merger\<close>

lemma set_dict_set_subset: "set (dict_set d k v) \<subseteq> insert (k, v) (set d)"
  by (induction d) (auto split: if_splits)

lemma dict_set_absent: "k \<notin> fst ` set d \<Longrightarrow> dict_set d k v = d @ [(k, v)]"
  by (induction d) auto

lemma map_fst_dict_set_present: "k \<in> fst ` set d \<Longrightarrow> map fst (dict_set d k v) = map fst d"
  by (induction d) force+

lemma signature_Nil_iff: "signature k = [] \<longleftrightarrow> k = []"
proof
  assume "signature k = []"
  then have "length (sort k) = 0" by (simp add: signature_def)
  then show "k = []" by simp
qed (simp add: signature_def)

lemma find_existing_None: "find_existing ks s = None \<longleftrightarrow> s \<notin> signature ` set ks"
  by (induction ks) auto

lemma find_existing_Some:
  "find_existing ks s = Some k \<Longrightarrow> k \<in> set ks \<and> signature k = s"
  by (induction ks) (auto split: if_splits)

lemma map_of_keys: "k \<in> fst ` set d \<Longrightarrow> \<exists>v. map_of d k = Some v"
  by (induction d) auto

lemma merge_step_total: "\<exists>f'. merge_step f key cur = Inr f'"
proof (cases "find_existing (map fst f) (signature key)")
  case None
  then show ?thesis by (simp add: merge_step_def)
next
  case (Some k0)
  then have "k0 \<in> fst ` set f" using find_existing_Some [OF Some] by simp
  from map_of_keys [OF this] obtain prev where "map_of f k0 = Some prev" by blast
  with Some show ?thesis by (simp add: merge_step_def dict_get_def)
qed


lemma merge_step_cases:
  assumes "key \<notin> fst ` set f"
  shows "(signature key \<notin> signature ` fst ` set f \<and> merge_step f key cur = Inr (f @ [(key, cur)])) \<or>
         (\<exists>k0 prev. find_existing (map fst f) (signature key) = Some k0 \<and>
                     map_of f k0 = Some prev \<and>
                     merge_step f key cur = Inr (dict_set f k0 (merge_into prev cur)))"
proof (cases "find_existing (map fst f) (signature key)")
  case None
  then have "signature key \<notin> signature ` fst ` set f"
    by (simp add: find_existing_None)
  with None assms show ?thesis
    by (simp add: merge_step_def dict_set_absent)
next
  case (Some k0)
  from find_existing_Some [OF Some] have k0: "k0 \<in> fst ` set f" "signature k0 = signature key"
    by simp_all
  have "k0 \<noteq> []"
  proof
    assume "k0 = []"
    with k0(2) have "signature key = []" by (simp add: signature_def)
    then have "key = []" by (simp only: signature_Nil_iff)
    with \<open>k0 = []\<close> k0(1) assms show False by simp
  qed
  moreover obtain prev where prev: "map_of f k0 = Some prev" using map_of_keys [OF k0(1)] by blast
  ultimately have "merge_step f key cur = Inr (dict_set f k0 (merge_into prev cur))"
    using Some by (simp add: merge_step_def dict_get_def)
  with Some prev show ?thesis by blast
qed

lemma names_dict_set_same:
  "map_of d k = Some prev \<Longrightarrow> fst v = fst prev \<Longrightarrow> names (dict_set d k v) = names d"
proof (induction d)
  case Nil
  then show ?case by simp
next
  case (Cons p d)
  obtain k' n' a' c' where p: "p = (k', n', a', c')" by (cases p)
  obtain n a c where v: "v = (n, a, c)" by (cases v)
  show ?case
  proof (cases "k' = k")
    case True
    with Cons.prems p v show ?thesis by (auto simp: names_def)
  next
    case False
    with Cons.prems p have "map_of d k = Some prev" by simp
    from Cons.IH [OF this Cons.prems(2)] False p show ?thesis by (simp add: names_def)
  qed
qed

lemma fst_merge_into: "fst (merge_into prev cur) = fst prev"
  by (simp add: merge_into_def Let_def split: prod.splits)


lemma merge_names:
  assumes "distinct (map fst m)" and "fst ` set m \<inter> fst ` set f = {}"
    and "equivalence_merge m f = Inr fm"
  shows "names fm = names f @ first_by_sig (signature ` fst ` set f) (names m)"
  using assms
proof (induction m arbitrary: f)
  case Nil
  then show ?case by (simp add: names_def)
next
  case (Cons x m)
  obtain key n a c where x: "x = (key, n, a, c)" by (cases x)
  from Cons.prems(2) x have notin: "key \<notin> fst ` set f" by auto
  from Cons.prems(1) x have dm: "distinct (map fst m)" and km: "key \<notin> fst ` set m" by auto
  from merge_step_cases [OF notin, of "(n, a, c)"]
  show ?case
  proof (elim disjE conjE exE)
    assume s: "signature key \<notin> signature ` fst ` set f"
      and st: "merge_step f key (n, a, c) = Inr (f @ [(key, n, a, c)])"
    let ?f = "f @ [(key, n, a, c)]"
    from st Cons.prems(3) x have e: "equivalence_merge m ?f = Inr fm" by simp
    from Cons.prems(2) km x have "fst ` set m \<inter> fst ` set ?f = {}" by auto
    from Cons.IH [OF dm this e]
    have "names fm = names ?f @ first_by_sig (signature ` fst ` set ?f) (names m)" .
    moreover have "signature ` fst ` set ?f = insert (signature key) (signature ` fst ` set f)"
      by auto
    ultimately show ?thesis using s x by (simp add: names_def)
  next
    fix k0 prev
    assume fe: "find_existing (map fst f) (signature key) = Some k0"
      and mo: "map_of f k0 = Some prev"
      and st: "merge_step f key (n, a, c) = Inr (dict_set f k0 (merge_into prev (n, a, c)))"
    let ?f = "dict_set f k0 (merge_into prev (n, a, c))"
    from find_existing_Some [OF fe] have k0: "k0 \<in> fst ` set f" "signature k0 = signature key"
      by simp_all
    from st Cons.prems(3) x have e: "equivalence_merge m ?f = Inr fm" by simp
    have keys: "map fst ?f = map fst f" using k0(1) by (rule map_fst_dict_set_present)
    then have ks: "fst ` set ?f = fst ` set f" by (metis list.set_map)
    with Cons.prems(2) x have "fst ` set m \<inter> fst ` set ?f = {}" by auto
    from Cons.IH [OF dm this e]
    have "names fm = names ?f @ first_by_sig (signature ` fst ` set ?f) (names m)" .
    moreover have "names ?f = names f"
      using mo fst_merge_into by (rule names_dict_set_same)
    moreover have "signature key \<in> signature ` fst ` set f"
      using imageI [OF k0(1), of signature] k0(2) by simp
    ultimately show ?thesis using x ks by (simp add: names_def)
  qed
qed

lemma first_by_sig_find:
  "(k, v) \<in> set (first_by_sig S xs) \<Longrightarrow>
   signature k \<notin> S \<and> find (\<lambda>e. signature (fst e) = signature k) xs = Some (k, v)"
proof (induction xs arbitrary: S)
  case Nil
  then show ?case by simp
next
  case (Cons x xs)
  obtain k' v' where x: "x = (k', v')" by (cases x)
  show ?case
  proof (cases "signature k' \<in> S")
    case True
    with Cons.prems x have "(k, v) \<in> set (first_by_sig S xs)" by simp
    from Cons.IH [OF this] True x show ?thesis by auto
  next
    case False
    with Cons.prems x have "(k, v) = (k', v') \<or> (k, v) \<in> set (first_by_sig (insert (signature k') S) xs)"
      by simp
    then show ?thesis
    proof
      assume "(k, v) = (k', v')"
      with False x show ?thesis by simp
    next
      assume "(k, v) \<in> set (first_by_sig (insert (signature k') S) xs)"
      from Cons.IH [OF this] x show ?thesis by auto
    qed
  qed
qed

lemma find_names:
  "find (\<lambda>e. signature (fst e) = s) (names m) = Some (k, n) \<Longrightarrow>
   \<exists>a c. find (\<lambda>e. signature (fst e) = s) m = Some (k, n, a, c)"
proof (induction m)
  case Nil
  then show ?case by (simp add: names_def)
next
  case (Cons p m)
  obtain k' n' a' c' where p: "p = (k', n', a', c')" by (cases p)
  show ?case
  proof (cases "signature k' = s")
    case True
    with Cons.prems p show ?thesis by (simp add: names_def)
  next
    case False
    with Cons.prems p have "find (\<lambda>e. signature (fst e) = s) (names m) = Some (k, n)"
      by (simp add: names_def)
    from Cons.IH [OF this] False p show ?thesis by simp
  qed
qed

lemma representative_is_first:
  assumes "distinct (map fst merged)" and "equivalence_merge merged [] = Inr fm"
    and "(k, n, a, c) \<in> set fm"
  shows "\<exists>a' c'. find (\<lambda>e. signature (fst e) = signature k) merged = Some (k, n, a', c')"
proof -
  from merge_names [OF assms(1) _ assms(2)]
  have "names fm = first_by_sig {} (names merged)" by (simp add: names_def)
  moreover from assms(3) have "(k, n) \<in> set (names fm)" by (force simp: names_def)
  ultimately have "(k, n) \<in> set (first_by_sig {} (names merged))" by simp
  from first_by_sig_find [OF this]
  have "find (\<lambda>e. signature (fst e) = signature k) (names merged) = Some (k, n)" by simp
  then show ?thesis by (rule find_names)
qed

subsection \<open>The display name of a merged entity\<close>

text \<open>
  Claim C1 says that an entity into which a key was absorbed shows the display name of
  the most recently merged key. The found branch stores \<^verbatim>\<open>prev_orig\<close>: with
  \<open>jawor\<close> absorbed into \<open>jowar\<close> the entity is still called \<open>Jowar\<close>, not
  \<open>Jawor\<close>.
\<close>

theorem display_name_of_last_key_counterexample:
  "equivalence_merge [(''jowar'', ''Jowar'', Some 50, 4), (''jawor'', ''Jawor'', Some 70, 6)] []
     = Inr [(''jowar'', ''Jowar'', Some 62, 10)] \<and>
   equivalence_merge [(''jowar'', ''Jowar'', Some 50, 4), (''jawor'', ''Jawor'', Some 70, 6)] []
     \<noteq> Inr [(''jowar'', ''Jawor'', Some 62, 10)]"
  by (simp add: merge_step_def dict_get_def signature_def merge_into_def py_or_def truthy_def)

text \<open>
  Claim C1, amended. In every run of the Equivalence Merger on a dict of aggregates, each
  entity of the result is stored under the first key of \<^verbatim>\<open>merged\<close> that has its
  signature, and its display name is the display name the Aggregator chose for that
  first key; keys absorbed later never change it.
\<close>

theorem display_name_of_first_key:
  assumes "distinct (map fst merged)" and "equivalence_merge merged [] = Inr final_merged"
    and "(k, n, a, c) \<in> set final_merged"
  shows "\<exists>a' c'. find (\<lambda>e. signature (fst e) = signature k) merged = Some (k, n, a', c')"
  using assms by (rule representative_is_first)

text \<open>The amended claim at the two anagram keys.\<close>

theorem display_name_of_first_key_witness:
  "distinct (map fst [(''jowar'', ''Jowar'', Some (50::real), 4::int), (''jawor'', ''Jawor'', Some 70, 6)]) \<and>
   equivalence_merge [(''jowar'', ''Jowar'', Some 50, 4), (''jawor'', ''Jawor'', Some 70, 6)] []
     = Inr [(''jowar'', ''Jowar'', Some 62, 10)] \<and>
   (''jowar'', ''Jowar'', Some 62, 10) \<in> set [(''jowar'', ''Jowar'', Some (62::real), 10::int)] \<and>
   (\<exists>a' c'. find (\<lambda>e. signature (fst e) = signature ''jowar'')
       [(''jowar'', ''Jowar'', Some (50::real), 4::int), (''jawor'', ''Jawor'', Some 70, 6)]
     = Some (''jowar'', ''Jowar'', a', c'))"
proof -
  have d: "distinct (map fst [(''jowar'', ''Jowar'', Some (50::real), 4::int), (''jawor'', ''Jawor'', Some 70, 6)])"
    by simp
  have e: "equivalence_merge [(''jowar'', ''Jowar'', Some 50, 4), (''jawor'', ''Jawor'', Some 70, 6)] []
     = Inr [(''jowar'', ''Jowar'', Some 62, 10)]"
    by (simp add: merge_step_def dict_get_def signature_def merge_into_def py_or_def truthy_def)
  have m: "(''jowar'', ''Jowar'', Some 62, 10) \<in> set [(''jowar'', ''Jowar'', Some (62::real), 10::int)]"
    by simp
  from display_name_of_first_key [OF d e m] d e m show ?thesis by blast
qed

subsection \<open>Threshold lookup\<close>

lemma match_loop_set:
  "(n, a, t) \<in> set (match_loop fm peak) \<longleftrightarrow>
   (\<exists>k c. (k, n, Some a, c) \<in> set fm \<and> peak k = Some t \<and> t \<le> a)"
proof (induction fm)
  case Nil
  show ?case by simp
next
  case (Cons x fm)
  obtain k' n' a' c' where x: "x = (k', n', a', c')" by (cases x)
  show ?case
  proof (cases a')
    case None
    with Cons x show ?thesis by auto
  next
    case (Some av)
    show ?thesis
    proof (cases "peak k'")
      case None
      with Cons x Some show ?thesis by auto
    next
      case (Some th)
      with Cons x \<open>a' = Some av\<close> show ?thesis by auto
    qed
  qed
qed

text \<open>
  Claim C3 at a threshold that exists for an absorbed key only. \<open>jowar\<close> and \<open>jawor\<close>
  are merged into one entity of average 62, and \<open>jawor\<close> has the threshold 10, so by the
  claim the entity is ranked. The lookup \<^verbatim>\<open>key not in peak\<close> uses the key under which
  the entity is stored, the first-seen \<open>jowar\<close>, and the entity is skipped. With the two
  rows of the day table in the other order the same crop is ranked.
\<close>

theorem threshold_of_absorbed_key_failing:
  "compute_top10 [(''jowar'', [(''Jowar'', Some 50, 4)]), (''jawor'', [(''Jawor'', Some 70, 6)])]
     [''jawor'' \<mapsto> 10] = Inr [] \<and>
   compute_top10 [(''jawor'', [(''Jawor'', Some 70, 6)]), (''jowar'', [(''Jowar'', Some 50, 4)])]
     [''jawor'' \<mapsto> 10] = Inr [(''Jawor'', 62, 10)]"
  by (simp add: compute_top10_def aggregate_def merge_step_def dict_get_def signature_def
      merge_into_def py_or_def truthy_def threshold_ranker_def sort_desc_def)

text \<open>
  What the matching loop does: a record with a present average is put on the matched list
  exactly when the key it is stored under, which is the first key of \<^verbatim>\<open>merged\<close> with its
  signature, has a threshold and the average is greater than or equal to it.
\<close>

lemma match_by_stored_key:
  assumes "distinct (map fst merged)" and "equivalence_merge merged [] = Inr final_merged"
  shows "((n, a, t) \<in> set (match_loop final_merged peak) \<longleftrightarrow>
          (\<exists>k c. (k, n, Some a, c) \<in> set final_merged \<and>
                 (\<exists>a' c'. find (\<lambda>e. signature (fst e) = signature k) merged = Some (k, n, a', c')) \<and>
                 peak k = Some t \<and> t \<le> a)) \<and>
         set (threshold_ranker final_merged peak) \<subseteq> set (match_loop final_merged peak) \<and>
         (length (match_loop final_merged peak) \<le> 10 \<longrightarrow>
            set (threshold_ranker final_merged peak) = set (match_loop final_merged peak))"
proof -
  have 1: "(n, a, t) \<in> set (match_loop final_merged peak) \<longleftrightarrow>
          (\<exists>k c. (k, n, Some a, c) \<in> set final_merged \<and>
                 (\<exists>a' c'. find (\<lambda>e. signature (fst e) = signature k) merged = Some (k, n, a', c')) \<and>
                 peak k = Some t \<and> t \<le> a)"
    using representative_is_first [OF assms] by (auto simp: match_loop_set)
  have 2: "set (threshold_ranker final_merged peak) \<subseteq> set (match_loop final_merged peak)"
    using set_take_subset [of 10 "sort_desc (match_loop final_merged peak)"]
    by (simp add: threshold_ranker_def sort_desc_def)
  have 3: "length (match_loop final_merged peak) \<le> 10 \<Longrightarrow>
            set (threshold_ranker final_merged peak) = set (match_loop final_merged peak)"
    by (simp add: threshold_ranker_def sort_desc_def)
  from 1 2 3 show ?thesis by blast
qed

subsection \<open>Keys without a positive weight\<close>


lemma pick_first_find: "pick_first es = find (\<lambda>e. fst (snd e) \<noteq> None) es"
  by (induction es) auto


lemma contribution_nonneg: "0 \<le> snd (snd e) \<Longrightarrow> 0 \<le> snd (contribution e)"
  by (cases e) (simp add: contribution_def split: option.splits)

lemma contribution_present:
  "0 \<le> snd (snd e) \<Longrightarrow> fst (snd e) \<noteq> None \<Longrightarrow> 1 \<le> snd (contribution e)"
  by (cases e) (auto simp: contribution_def split: option.splits)

lemma weight_total_nonneg: "counts_nonneg es \<Longrightarrow> 0 \<le> weight_total es"
proof (induction es)
  case Nil
  show ?case by (simp add: weight_total_def)
next
  case (Cons e es)
  then have "0 \<le> snd (contribution e)" "0 \<le> weight_total es"
    by (simp_all add: counts_nonneg_def contribution_nonneg)
  then show ?case by (simp add: weight_total_def)
qed

lemma weight_total_present:
  "counts_nonneg es \<Longrightarrow> e \<in> set es \<Longrightarrow> fst (snd e) \<noteq> None \<Longrightarrow> 1 \<le> weight_total es"
proof (induction es)
  case Nil
  then show ?case by simp
next
  case (Cons x es)
  from Cons.prems(1) have nn: "counts_nonneg es" and x: "0 \<le> snd (snd x)"
    by (simp_all add: counts_nonneg_def)
  show ?case
  proof (cases "e = x")
    case True
    with x Cons.prems(3) have "1 \<le> snd (contribution x)" by (simp add: contribution_present)
    moreover have "0 \<le> weight_total es" using nn by (rule weight_total_nonneg)
    ultimately show ?thesis by (simp add: weight_total_def)
  next
    case False
    with Cons.prems(2) have "e \<in> set es" by simp
    from Cons.IH [OF nn this Cons.prems(3)] have "1 \<le> weight_total es" .
    moreover have "0 \<le> snd (contribution x)" using x by (rule contribution_nonneg)
    ultimately show ?thesis by (simp add: weight_total_def)
  qed
qed

lemma find_None_all: "find P xs = None \<longleftrightarrow> (\<forall>x\<in>set xs. \<not> P x)"
  by (induction xs) auto




subsection \<open>The merge of two records\<close>

lemma merge_into_positive:
  "0 < wA + wB \<Longrightarrow>
   merge_into (nA, avgA, wA) (nB, avgB, wB) =
     (nA, Some (((case avgA of None \<Rightarrow> 0 | Some x \<Rightarrow> x) * of_int wA
                 + (case avgB of None \<Rightarrow> 0 | Some x \<Rightarrow> x) * of_int wB) / of_int (wA + wB)),
      wA + wB)"
  by (simp add: merge_into_def py_or_def truthy_def split: option.splits)

lemma merge_into_zero:
  "wA + wB \<le> 0 \<Longrightarrow>
   merge_into (nA, avgA, wA) (nB, avgB, wB) =
     (nA, (if avgA \<noteq> None \<and> avgA \<noteq> Some 0 then avgA else avgB), wA + wB)"
  by (auto simp: merge_into_def py_or_def truthy_def split: option.splits)

text \<open>
  Claim C6 at a present average of zero. \<^verbatim>\<open>prev_avg or avg\<close> takes the average
  \<^verbatim>\<open>0.0\<close> of the existing record for a missing one: with both weights zero the merged
  average is 5, the average of the record folded in, where the claim keeps the existing
  record's 0. The second equation reaches the same merge from a day table (the counts of
  -1 bring both keys to a total weight of zero), and the crop passes a threshold of 1
  that an average of 0 would not.
\<close>

theorem merge_prefers_zero_average_failing:
  "merge_into (''ab'', Some 0, 0) (''ba'', Some 5, 0) = (''ab'', Some 5, 0) \<and>
   compute_top10
     [(''ab'', [(''ab'', Some 0, 0), (''ab'', Some 7, - 1)]),
      (''ba'', [(''ba'', Some 5, 0), (''ba'', Some 7, - 1)])]
     [''ab'' \<mapsto> 1]
   = Inr [(''ab'', 5, 1)]"
  by (simp add: compute_top10_def aggregate_def merge_step_def dict_get_def signature_def
      merge_into_def py_or_def truthy_def threshold_ranker_def sort_desc_def)

subsection \<open>Every stored record has an average and a weight\<close>

lemma pick_first_present: "pick_first es = Some (n, a, c) \<Longrightarrow> a \<noteq> None \<and> (n, a, c) \<in> set es"
  by (induction es) (auto split: if_splits)

lemma aggregate_average_present: "aggregate es = Inr (Some (n, a, c)) \<Longrightarrow> a \<noteq> None"
proof (cases es)
  case Nil
  assume "aggregate es = Inr (Some (n, a, c))"
  with Nil show ?thesis by (simp add: aggregate_def)
next
  case (Cons e es')
  assume a: "aggregate es = Inr (Some (n, a, c))"
  obtain tw tc nm where r: "agg_loop es (0, 0, fst e) = (tw, tc, nm)"
    by (cases "agg_loop es (0, 0, fst e)")
  show ?thesis
  proof (cases "0 < tc")
    case True
    with a r Cons show ?thesis by (auto simp: aggregate_def)
  next
    case False
    with a r Cons have "pick_first es = Some (n, a, c)" by (simp add: aggregate_def)
    then show ?thesis by (simp add: pick_first_present)
  qed
qed

lemma aggregate_weight_positive:
  assumes "counts_nonneg es" and "aggregate es = Inr (Some (n, a, c))"
  shows "1 \<le> c"
proof (cases es)
  case Nil
  with assms(2) show ?thesis by (simp add: aggregate_def)
next
  case (Cons e es')
  obtain tw tc nm where r: "agg_loop es (0, 0, fst e) = (tw, tc, nm)"
    by (cases "agg_loop es (0, 0, fst e)")
  from agg_loop_sums [OF assms(1), of 0 0 "fst e"] r have tc: "tc = weight_total es" by simp
  show ?thesis
  proof (cases "0 < tc")
    case True
    with assms(2) r Cons show ?thesis by (auto simp: aggregate_def)
  next
    case False
    with assms(2) r Cons have "pick_first es = Some (n, a, c)" by (simp add: aggregate_def)
    from pick_first_present [OF this] have "(n, a, c) \<in> set es" "fst (snd (n, a, c)) \<noteq> None"
      by simp_all
    from weight_total_present [OF assms(1) this] tc False show ?thesis by simp
  qed
qed

lemma agg_loop_absent:
  "\<forall>e\<in>set es. fst (snd e) = None \<Longrightarrow> agg_loop es acc = acc"
proof (induction es arbitrary: acc)
  case Nil
  show ?case by simp
next
  case (Cons e es)
  obtain orig avg cnt where e: "e = (orig, avg, cnt)" by (cases e)
  obtain tw tc nm where acc: "acc = (tw, tc, nm)" by (cases acc)
  from Cons.prems e have "avg = None" by simp
  with Cons e acc show ?case by simp
qed

lemma aggregate_absent:
  assumes "es \<noteq> []" and "\<forall>e\<in>set es. fst (snd e) = None"
  shows "aggregate es = Inr None"
proof -
  from assms(1) obtain e es' where es: "es = e # es'" by (cases es) auto
  have "agg_loop es (0, 0, fst e) = (0, 0, fst e)" using assms(2) by (rule agg_loop_absent)
  moreover have "pick_first es = None" using assms(2) by (simp add: pick_first_find find_None_all)
  ultimately show ?thesis using es by (simp add: aggregate_def)
qed

lemma aggregate_all_from:
  "aggregate_all day m0 = Inr m \<Longrightarrow> (k, r) \<in> set m \<Longrightarrow>
   (k, r) \<in> set m0 \<or> (\<exists>es. (k, es) \<in> set day \<and> aggregate es = Inr (Some r))"
proof (induction day arbitrary: m0)
  case Nil
  then show ?case by simp
next
  case (Cons x day)
  obtain key entries where x: "x = (key, entries)" by (cases x)
  show ?case
  proof (cases "aggregate entries")
    case (Inl e)
    with Cons.prems x show ?thesis by simp
  next
    case (Inr ro)
    show ?thesis
    proof (cases ro)
      case None
      with Inr Cons.prems x have "aggregate_all day m0 = Inr m" by simp
      from Cons.IH [OF this Cons.prems(2)] show ?thesis by auto
    next
      case (Some r')
      with Inr Cons.prems x have "aggregate_all day (dict_set m0 key r') = Inr m" by simp
      from Cons.IH [OF this Cons.prems(2)]
      have "(k, r) \<in> set (dict_set m0 key r') \<or>
            (\<exists>es. (k, es) \<in> set day \<and> aggregate es = Inr (Some r))" .
      then show ?thesis
      proof
        assume "(k, r) \<in> set (dict_set m0 key r')"
        with set_dict_set_subset [of m0 key r'] have "(k, r) = (key, r') \<or> (k, r) \<in> set m0"
          by auto
        with Inr Some x show ?thesis by auto
      next
        assume "\<exists>es. (k, es) \<in> set day \<and> aggregate es = Inr (Some r)"
        then show ?thesis by auto
      qed
    qed
  qed
qed

lemma merge_step_result:
  "merge_step f key cur = Inr f' \<Longrightarrow>
   f' = dict_set f key cur \<or>
   (\<exists>k0 prev. map_of f k0 = Some prev \<and> f' = dict_set f k0 (merge_into prev cur))"
  by (auto simp: merge_step_def dict_get_def split: option.splits if_splits)

lemma merge_into_average_present:
  "fst (snd prev) \<noteq> None \<Longrightarrow> fst (snd cur) \<noteq> None \<Longrightarrow> fst (snd (merge_into prev cur)) \<noteq> None"
  by (cases prev; cases cur) (auto simp: merge_into_def Let_def py_or_def)

lemma merge_into_weight:
  "snd (snd (merge_into prev cur)) = snd (snd prev) + snd (snd cur)"
  by (cases prev; cases cur) (simp add: merge_into_def Let_def)

lemma dict_set_all:
  "list_all P d \<Longrightarrow> P (k, v) \<Longrightarrow> list_all P (dict_set d k v)"
  using set_dict_set_subset [of d k v] by (auto simp: list_all_iff)

lemma merge_step_invariant:
  assumes st: "merge_step f key cur = Inr f'"
    and f: "list_all (\<lambda>(k, r). P r) f" and cur: "P cur"
    and step: "\<And>prev. P prev \<Longrightarrow> P (merge_into prev cur)"
  shows "list_all (\<lambda>(k, r). P r) f'"
proof -
  from merge_step_result [OF st] show ?thesis
  proof (elim disjE exE conjE)
    assume "f' = dict_set f key cur"
    with f cur show ?thesis by (simp add: dict_set_all)
  next
    fix k0 prev
    assume mo: "map_of f k0 = Some prev" and f': "f' = dict_set f k0 (merge_into prev cur)"
    from mo have "(k0, prev) \<in> set f" by (rule map_of_SomeD)
    with f have "P prev" by (auto simp: list_all_iff)
    from step [OF this] f f' show ?thesis by (simp add: dict_set_all)
  qed
qed

lemma equivalence_merge_invariant:
  assumes "equivalence_merge m f = Inr fm"
    and "list_all (\<lambda>(k, r). P r) f" and "list_all (\<lambda>(k, r). P r) m"
    and step: "\<And>prev cur. P prev \<Longrightarrow> P cur \<Longrightarrow> P (merge_into prev cur)"
  shows "list_all (\<lambda>(k, r). P r) fm"
  using assms(1-3)
proof (induction m arbitrary: f)
  case Nil
  then show ?case by simp
next
  case (Cons x m)
  obtain key cur where x: "x = (key, cur)" by (cases x)
  obtain f' where st: "merge_step f key cur = Inr f'" using merge_step_total by blast
  from Cons.prems(3) x have cur: "P cur" and m: "list_all (\<lambda>(k, r). P r) m" by simp_all
  have "list_all (\<lambda>(k, r). P r) f'"
    using st Cons.prems(2) cur step [OF _ cur] by (rule merge_step_invariant)
  moreover from Cons.prems(1) st x have "equivalence_merge m f' = Inr fm" by simp
  ultimately show ?case using m Cons.IH by blast
qed

lemma merged_average_present:
  assumes "aggregate_all day [] = Inr merged"
  shows "avg_present merged"
proof -
  have "a \<noteq> None" if "(k, n, a, c) \<in> set merged" for k n a c
    using aggregate_all_from [OF assms that] aggregate_average_present by auto
  then show ?thesis by (auto simp: avg_present_def list_all_iff)
qed

lemma merged_weight_positive:
  assumes "aggregate_all day [] = Inr merged" and "list_all (\<lambda>(k, es). counts_nonneg es) day"
  shows "weight_positive merged"
proof -
  have "1 \<le> c" if "(k, n, a, c) \<in> set merged" for k n a c
  proof -
    from aggregate_all_from [OF assms(1) that]
    obtain es where es: "(k, es) \<in> set day" "aggregate es = Inr (Some (n, a, c))" by auto
    from es(1) assms(2) have "counts_nonneg es" by (auto simp: list_all_iff)
    then show ?thesis using es(2) by (rule aggregate_weight_positive)
  qed
  then show ?thesis by (auto simp: weight_positive_def list_all_iff)
qed

lemma final_average_present:
  assumes "equivalence_merge merged [] = Inr fm" and "avg_present merged"
  shows "avg_present fm"
proof -
  have "list_all (\<lambda>(k, r). fst (snd r) \<noteq> None) fm"
    using assms(1)
  proof (rule equivalence_merge_invariant)
    show "list_all (\<lambda>(k, r). fst (snd r) \<noteq> None) []" by simp
    show "list_all (\<lambda>(k, r). fst (snd r) \<noteq> None) merged"
      using assms(2) by (auto simp: avg_present_def list_all_iff)
  qed (rule merge_into_average_present)
  then show ?thesis by (auto simp: avg_present_def list_all_iff)
qed

lemma final_weight_positive:
  assumes "equivalence_merge merged [] = Inr fm" and "weight_positive merged"
  shows "weight_positive fm"
proof -
  have "list_all (\<lambda>(k, r). 1 \<le> snd (snd r)) fm"
    using assms(1)
  proof (rule equivalence_merge_invariant)
    show "list_all (\<lambda>(k, r). 1 \<le> snd (snd r)) []" by simp
    show "list_all (\<lambda>(k, r). 1 \<le> snd (snd r)) merged"
      using assms(2) by (auto simp: weight_positive_def list_all_iff)
  qed (simp add: merge_into_weight)
  then show ?thesis by (auto simp: weight_positive_def list_all_iff)
qed

lemma absent_key_omitted:
  assumes "aggregate_all day [] = Inr merged" and "distinct (map fst day)"
    and "(k, es) \<in> set day" and "\<forall>e\<in>set es. fst (snd e) = None"
  shows "k \<notin> fst ` set merged"
proof
  assume "k \<in> fst ` set merged"
  then obtain r where "(k, r) \<in> set merged" by auto
  from aggregate_all_from [OF assms(1) this]
  obtain es' where es': "(k, es') \<in> set day" "aggregate es' = Inr (Some r)" by auto
  from assms(2,3) es'(1) have "es' = es" by (meson eq_key_imp_eq_value)
  with es'(2) have a: "aggregate es = Inr (Some r)" by simp
  then have "es \<noteq> []" by (auto simp: aggregate_def)
  from aggregate_absent [OF this assms(4)] a show False by simp
qed

text \<open>
  Claim C10 says that every stored record has a weight of at least 1, for every input. A
  single entry with the count -3 leaves a total of -3, the fallback stores the entry as
  it stands, and the record of weight -3 is ranked.
\<close>

theorem record_weight_below_one_counterexample:
  "aggregate_all [(''x'', [(''x'', Some 5, - 3)])] [] = Inr [(''x'', ''x'', Some 5, - 3)] \<and>
   equivalence_merge [(''x'', ''x'', Some 5, - 3)] [] = Inr [(''x'', ''x'', Some 5, - 3)] \<and>
   \<not> weight_positive [(''x'', ''x'', Some 5, - 3)] \<and>
   compute_top10 [(''x'', [(''x'', Some 5, - 3)])] [''x'' \<mapsto> 1] = Inr [(''x'', 5, 1)]"
  by (simp add: compute_top10_def aggregate_def merge_step_def weight_positive_def
      threshold_ranker_def sort_desc_def)

text \<open>
  Claim C10, amended. For every day table (a dict, so with distinct keys) on which the two
  stages return, every record of \<^verbatim>\<open>merged\<close> and every record of \<^verbatim>\<open>final_merged\<close> has a
  present average, so the Ranker's test for an absent average never fires; a key all of
  whose entries lack an average is not a key of \<^verbatim>\<open>merged\<close>; and when all sample counts
  are non-negative, every such record has a weight of at least 1.
\<close>

theorem records_have_average_and_weight:
  assumes "distinct (map fst day)"
    and "aggregate_all day [] = Inr merged"
    and "equivalence_merge merged [] = Inr final_merged"
  shows "avg_present merged \<and> avg_present final_merged \<and>
         (list_all (\<lambda>(k, es). counts_nonneg es) day \<longrightarrow>
            weight_positive merged \<and> weight_positive final_merged) \<and>
         (\<forall>(k, es) \<in> set day. (\<forall>e\<in>set es. fst (snd e) = None) \<longrightarrow> k \<notin> fst ` set merged)"
proof -
  have 1: "avg_present merged" using assms(2) by (rule merged_average_present)
  have 2: "avg_present final_merged" using assms(3) 1 by (rule final_average_present)
  have 3: "weight_positive merged \<and> weight_positive final_merged"
    if "list_all (\<lambda>(k, es). counts_nonneg es) day"
    using merged_weight_positive [OF assms(2) that] final_weight_positive [OF assms(3)] by blast
  have 4: "\<forall>(k, es) \<in> set day. (\<forall>e\<in>set es. fst (snd e) = None) \<longrightarrow> k \<notin> fst ` set merged"
    using absent_key_omitted [OF assms(2,1)] by blast
  from 1 2 3 4 show ?thesis by blast
qed


text \<open>A table with one key that has averages and one key that has none.\<close>

theorem records_have_average_and_weight_witness:
  "distinct (map fst [(''wheat'', [(''wheat'', Some (100::real), 10::int), (''Wheat'', Some 120, 5)]),
                      (''rice'', [(''Rice'', None, 0)])]) \<and>
   aggregate_all [(''wheat'', [(''wheat'', Some 100, 10), (''Wheat'', Some 120, 5)]),
                  (''rice'', [(''Rice'', None, 0)])] []
     = Inr [(''wheat'', ''Wheat'', Some (320 / 3), 15)] \<and>
   equivalence_merge [(''wheat'', ''Wheat'', Some (320 / 3), 15)] []
     = Inr [(''wheat'', ''Wheat'', Some (320 / 3), 15)] \<and>
   list_all (\<lambda>(k, es). counts_nonneg es)
     [(''wheat'', [(''wheat'', Some 100, 10), (''Wheat'', Some 120, 5)]),
      (''rice'', [(''Rice'', None, 0)])] \<and>
   avg_present [(''wheat'', ''Wheat'', Some (320 / 3), 15)] \<and>
   weight_positive [(''wheat'', ''Wheat'', Some (320 / 3), 15)] \<and>
   ''rice'' \<notin> fst ` set [(''wheat'', ''Wheat'', Some (320 / 3 :: real), 15 :: int)]"
proof -
  have d: "distinct (map fst [(''wheat'', [(''wheat'', Some (100::real), 10::int), (''Wheat'', Some 120, 5)]),
                      (''rice'', [(''Rice'', None, 0)])])"
    by simp
  have a: "aggregate_all [(''wheat'', [(''wheat'', Some 100, 10), (''Wheat'', Some 120, 5)]),
                  (''rice'', [(''Rice'', None, 0)])] []
     = Inr [(''wheat'', ''Wheat'', Some (320 / 3), 15)]"
    by (simp add: aggregate_def)
  have e: "equivalence_merge [(''wheat'', ''Wheat'', Some (320 / 3), 15)] []
     = Inr [(''wheat'', ''Wheat'', Some (320 / 3), 15)]"
    by (simp add: merge_step_def)
  have n: "list_all (\<lambda>(k, es). counts_nonneg es)
     [(''wheat'', [(''wheat'', Some 100, 10), (''Wheat'', Some 120, 5)]),
      (''rice'', [(''Rice'', None, 0)])]"
    by (simp add: counts_nonneg_def)
  from records_have_average_and_weight [OF d a e] n d a e show ?thesis by simp
qed

subsection \<open>The loader never files an empty entry list\<close>

lemma load_rows_nonempty:
  "entries_nonempty d \<Longrightarrow> entries_nonempty (load_rows lower rows d)"
proof (induction rows arbitrary: d)
  case Nil
  then show ?case by simp
next
  case (Cons row rows)
  obtain crop avg cnt where row: "row = (crop, avg, cnt)" by (cases row)
  show ?case
  proof (cases "crop = []")
    case True
    with Cons row show ?thesis by simp
  next
    case False
    let ?es = "(case map_of d (lower crop) of None \<Rightarrow> [] | Some es \<Rightarrow> es) @ [(crop, avg, cnt)]"
    have "entries_nonempty (dict_set d (lower crop) ?es)"
      using Cons.prems unfolding entries_nonempty_def by (rule dict_set_all) simp
    from Cons.IH [OF this] False row show ?thesis by (simp add: Let_def)
  qed
qed

lemma load_day_averages_nonempty: "entries_nonempty (load_day_averages lower rows)"
  unfolding load_day_averages_def by (rule load_rows_nonempty) (simp add: entries_nonempty_def)

subsection \<open>Grouping does not depend on the order\<close>



















section \<open>Properties of the program in double arithmetic\<close>

subsection \<open>Rounding\<close>

lemma rhe_cases: "rhe t = \<lfloor>t\<rfloor> \<or> rhe t = \<lfloor>t\<rfloor> + 1"
  by (simp add: rhe_def Let_def)

lemma rhe_of_int: "rhe (of_int n) = n"
  by (simp add: rhe_def Let_def)

lemma rhe_low: "rhe t = \<lfloor>t\<rfloor> \<longleftrightarrow> t - of_int \<lfloor>t\<rfloor> < 1 / 2 \<or> (t - of_int \<lfloor>t\<rfloor> = 1 / 2 \<and> even \<lfloor>t\<rfloor>)"
  by (auto simp: rhe_def Let_def)

lemma rhe_mono:
  assumes "s \<le> t"
  shows "rhe s \<le> rhe t"
proof -
  from assms have fl: "\<lfloor>s\<rfloor> \<le> \<lfloor>t\<rfloor>" by (rule floor_mono)
  show ?thesis
  proof (cases "\<lfloor>s\<rfloor> < \<lfloor>t\<rfloor>")
    case True
    with rhe_cases [of s] rhe_cases [of t] show ?thesis by linarith
  next
    case False
    with fl have eq: "\<lfloor>s\<rfloor> = \<lfloor>t\<rfloor>" by simp
    show ?thesis
    proof (cases "rhe t = \<lfloor>t\<rfloor>")
      case True
      then have "t - of_int \<lfloor>t\<rfloor> < 1 / 2 \<or> (t - of_int \<lfloor>t\<rfloor> = 1 / 2 \<and> even \<lfloor>t\<rfloor>)"
        by (simp only: rhe_low)
      with assms eq have "s - of_int \<lfloor>s\<rfloor> < 1 / 2 \<or> (s - of_int \<lfloor>s\<rfloor> = 1 / 2 \<and> even \<lfloor>s\<rfloor>)"
        by auto
      then have "rhe s = \<lfloor>s\<rfloor>" by (simp only: rhe_low)
      with True eq show ?thesis by simp
    next
      case False
      with rhe_cases [of t] have "rhe t = \<lfloor>t\<rfloor> + 1" by simp
      with rhe_cases [of s] eq show ?thesis by linarith
    qed
  qed
qed

lemma rhe_minus: "rhe (- t) = - rhe t"
proof (cases "t = of_int \<lfloor>t\<rfloor>")
  case True
  then obtain n where "t = of_int n" ..
  then have "- t = of_int (- n)" by simp
  with \<open>t = of_int n\<close> show ?thesis by (simp only: rhe_of_int)
next
  case False
  with of_int_floor_le [of t] have lt: "of_int \<lfloor>t\<rfloor> < t" by linarith
  have ub: "t < of_int \<lfloor>t\<rfloor> + 1" by linarith
  have fl: "\<lfloor>- t\<rfloor> = - \<lfloor>t\<rfloor> - 1"
  proof (rule floor_unique)
    show "of_int (- \<lfloor>t\<rfloor> - 1) \<le> - t" using ub by simp
    show "- t < of_int (- \<lfloor>t\<rfloor> - 1) + 1" using lt by simp
  qed
  show ?thesis
    unfolding rhe_def Let_def fl using lt
    by (auto simp: field_simps)
qed

lemma two_powi_pos: "0 < (2::rat) powi e"
  by simp

lemma two_powi_mono: "a \<le> b \<Longrightarrow> (2::rat) powi a \<le> 2 powi b"
  by (rule power_int_increasing) simp_all

lemma two_powi_add: "(2::rat) powi (a + b) = 2 powi a * 2 powi b"
  by (rule power_int_add) simp

lemma two_powi_nat: "0 \<le> e \<Longrightarrow> (2::rat) powi e = of_int (2 ^ nat e)"
  by (simp add: power_int_def)

lemma expo_bounds:
  assumes "0 < x"
  shows "2 powi expo x \<le> x \<and> x < 2 powi (expo x + 1)"
proof -
  obtain n d where q: "quotient_of x = (n, d)" by (cases "quotient_of x")
  then have d: "0 < d" and x: "x = of_int n / of_int d"
    by (simp_all add: quotient_of_denom_pos quotient_of_div)
  from assms x d have n: "0 < n" by (simp add: zero_less_divide_iff)
  let ?g = "bitlen n - bitlen d"
  from bitlen_bounds [OF n] have bn: "2 ^ nat (bitlen n - 1) \<le> n" "n < 2 ^ nat (bitlen n)" by simp_all
  from bitlen_bounds [OF d] have bd: "2 ^ nat (bitlen d - 1) \<le> d" "d < 2 ^ nat (bitlen d)" by simp_all
  from n have n1: "1 \<le> bitlen n" by (simp add: bitlen_alt_def)
  from d have d1: "1 \<le> bitlen d" by (simp add: bitlen_alt_def)
  have ln: "(2::rat) powi (bitlen n - 1) \<le> of_int n"
  proof -
    from bn(1) have "(of_int (2 ^ nat (bitlen n - 1)) :: rat) \<le> of_int n" by (simp only: of_int_le_iff)
    with n1 show ?thesis by (simp add: two_powi_nat)
  qed
  have un: "of_int n < (2::rat) powi bitlen n"
  proof -
    from bn(2) have "(of_int n :: rat) < of_int (2 ^ nat (bitlen n))" by (simp only: of_int_less_iff)
    with n1 show ?thesis by (simp add: two_powi_nat)
  qed
  have ld: "(2::rat) powi (bitlen d - 1) \<le> of_int d"
  proof -
    from bd(1) have "(of_int (2 ^ nat (bitlen d - 1)) :: rat) \<le> of_int d" by (simp only: of_int_le_iff)
    with d1 show ?thesis by (simp add: two_powi_nat)
  qed
  have ud: "of_int d < (2::rat) powi bitlen d"
  proof -
    from bd(2) have "(of_int d :: rat) < of_int (2 ^ nat (bitlen d))" by (simp only: of_int_less_iff)
    with d1 show ?thesis by (simp add: two_powi_nat)
  qed
  have dq: "(0::rat) < of_int d" using d by simp
  have up: "x < 2 powi (?g + 1)"
  proof -
    have "x * of_int d = of_int n" using x dq by simp
    also have "\<dots> < 2 powi bitlen n" by (rule un)
    also have "\<dots> = (2::rat) powi (?g + 1) * 2 powi (bitlen d - 1)"
      by (simp add: power_int_add [symmetric])
    also have "\<dots> \<le> 2 powi (?g + 1) * of_int d"
      using ld by (simp add: mult_left_mono)
    finally show ?thesis using dq by simp
  qed
  have lo: "2 powi (?g - 1) \<le> x"
  proof -
    have "(2::rat) powi (?g - 1) * of_int d \<le> 2 powi (?g - 1) * 2 powi bitlen d"
      using ud by (simp add: mult_left_mono)
    also have "\<dots> = 2 powi (bitlen n - 1)"
      by (simp add: power_int_add [symmetric])
    also have "\<dots> \<le> of_int n" by (rule ln)
    also have "\<dots> = x * of_int d" using x dq by simp
    finally show ?thesis using dq by simp
  qed
  show ?thesis
  proof (cases "2 powi ?g \<le> x")
    case True
    with q have "expo x = ?g" by (simp add: expo_def)
    with True up show ?thesis by simp
  next
    case False
    with q have "expo x = ?g - 1" by (simp add: expo_def)
    with False lo show ?thesis by simp
  qed
qed

lemma expo_mono:
  assumes "0 < x" and "x \<le> y"
  shows "expo x \<le> expo y"
proof (rule ccontr)
  assume "\<not> expo x \<le> expo y"
  then have "expo y + 1 \<le> expo x" by simp
  then have "(2::rat) powi (expo y + 1) \<le> 2 powi expo x" by (rule two_powi_mono)
  also from expo_bounds [OF assms(1)] have "\<dots> \<le> x" by simp
  also note assms(2)
  finally have "2 powi (expo y + 1) \<le> y" .
  moreover from assms have "0 < y" by simp
  from expo_bounds [OF this] have "y < 2 powi (expo y + 1)" by simp
  ultimately show False by simp
qed


lemma round_val_pos:
  "0 < x \<Longrightarrow>
   round_val x =
     of_int (rhe (x / 2 powi max (expo x - 52) (- 1074))) * 2 powi max (expo x - 52) (- 1074)"
  by (simp add: round_val_def Let_def)

lemma round_val_pos_mono:
  assumes x: "0 < x" and xy: "x \<le> y"
  shows "round_val x \<le> round_val y"
proof -
  from x xy have y: "0 < y" by simp
  let ?px = "max (expo x - 52) (- 1074)" and ?py = "max (expo y - 52) (- 1074)"
  from expo_mono [OF x xy] have pp: "?px \<le> ?py" by simp
  note rx = round_val_pos [OF x] and ry = round_val_pos [OF y]
  show ?thesis
  proof (cases "?px = ?py")
    case True
    have "x / 2 powi ?py \<le> y / 2 powi ?py"
      using xy by (simp add: divide_right_mono)
    then have "rhe (x / 2 powi ?py) \<le> rhe (y / 2 powi ?py)" by (rule rhe_mono)
    then have "(of_int (rhe (x / 2 powi ?py)) :: rat) \<le> of_int (rhe (y / 2 powi ?py))"
      by (simp only: of_int_le_iff)
    then have "(of_int (rhe (x / 2 powi ?py)) :: rat) * 2 powi ?py \<le> of_int (rhe (y / 2 powi ?py)) * 2 powi ?py"
      by (rule mult_right_mono) simp
    with rx ry True show ?thesis by simp
  next
    case False
    from order.not_eq_order_implies_strict [OF False pp] have lt: "?px < ?py" .
    then have py: "?py = expo y - 52" by linarith
    let ?k = "expo y - ?px"
    from lt py have k: "0 \<le> ?k" by linarith
    have split: "(2::rat) powi expo y = of_int (2 ^ nat ?k) * 2 powi ?px"
    proof -
      have "(2::rat) powi expo y = 2 powi (?k + ?px)" by simp
      also have "\<dots> = 2 powi ?k * 2 powi ?px" by (rule two_powi_add)
      finally show ?thesis using k by (simp only: two_powi_nat)
    qed
    from lt py have "expo x + 1 \<le> expo y" by linarith
    then have "(2::rat) powi (expo x + 1) \<le> 2 powi expo y" by (rule two_powi_mono)
    with expo_bounds [OF x] have "x \<le> 2 powi expo y" by simp
    then have "x / 2 powi ?px \<le> 2 powi expo y / 2 powi ?px"
      by (simp add: divide_right_mono)
    also have "\<dots> = of_int (2 ^ nat ?k)" by (simp only: split) simp
    finally have "rhe (x / 2 powi ?px) \<le> rhe (of_int (2 ^ nat ?k))" by (rule rhe_mono)
    then have "rhe (x / 2 powi ?px) \<le> 2 ^ nat ?k" by (simp only: rhe_of_int)
    then have "(of_int (rhe (x / 2 powi ?px)) :: rat) \<le> of_int (2 ^ nat ?k)"
      by (simp only: of_int_le_iff)
    then have "(of_int (rhe (x / 2 powi ?px)) :: rat) * 2 powi ?px \<le> of_int (2 ^ nat ?k) * 2 powi ?px"
      by (rule mult_right_mono) simp
    with rx split have upper: "round_val x \<le> 2 powi expo y" by simp
    have s52: "(2::rat) powi expo y = of_int (2 ^ 52) * 2 powi ?py"
    proof -
      have "(2::rat) powi expo y = 2 powi (52 + ?py)" using py by simp
      also have "\<dots> = 2 powi 52 * 2 powi ?py" by (rule two_powi_add)
      finally show ?thesis by simp
    qed
    from expo_bounds [OF y] have "2 powi expo y / 2 powi ?py \<le> y / 2 powi ?py"
      by (simp add: divide_right_mono)
    moreover have "2 powi expo y / (2::rat) powi ?py = of_int (2 ^ 52)"
      by (simp only: s52) simp
    ultimately have "of_int (2 ^ 52) \<le> y / 2 powi ?py" by simp
    then have "rhe (of_int (2 ^ 52)) \<le> rhe (y / 2 powi ?py)" by (rule rhe_mono)
    then have "2 ^ 52 \<le> rhe (y / 2 powi ?py)" by (simp only: rhe_of_int)
    then have "(of_int (2 ^ 52) :: rat) \<le> of_int (rhe (y / 2 powi ?py))"
      by (simp only: of_int_le_iff)
    then have "(of_int (2 ^ 52) :: rat) * 2 powi ?py \<le> of_int (rhe (y / 2 powi ?py)) * 2 powi ?py"
      by (rule mult_right_mono) simp
    with ry s52 have lower: "2 powi expo y \<le> round_val y" by simp
    from upper lower show ?thesis by simp
  qed
qed

lemma round_val_nonneg: "0 \<le> x \<Longrightarrow> 0 \<le> round_val x"
proof (cases "x = 0")
  case True
  then show ?thesis by (simp add: round_val_def)
next
  case False
  assume "0 \<le> x"
  with False have x: "0 < x" by simp
  let ?p = "max (expo x - 52) (- 1074)"
  from x have "0 \<le> x / 2 powi ?p" by simp
  then have "rhe 0 \<le> rhe (x / 2 powi ?p)" by (rule rhe_mono)
  moreover have "rhe 0 = 0" using rhe_of_int [of 0] by simp
  ultimately have "0 \<le> rhe (x / 2 powi ?p)" by simp
  then have "(0::rat) \<le> of_int (rhe (x / 2 powi ?p)) * 2 powi ?p" by simp
  with round_val_pos [OF x] show ?thesis by simp
qed

lemma round_val_minus: "round_val (- x) = - round_val x"
  by (simp add: round_val_def Let_def rhe_minus)

lemma round_val_mono:
  assumes "x \<le> y"
  shows "round_val x \<le> round_val y"
proof (cases "0 < x")
  case True
  then show ?thesis using assms by (rule round_val_pos_mono)
next
  case False
  then have x: "x \<le> 0" by simp
  show ?thesis
  proof (cases "0 \<le> y")
    case True
    from x have "0 \<le> round_val (- x)" by (simp add: round_val_nonneg)
    then have "round_val x \<le> 0" by (simp add: round_val_minus)
    also from True have "0 \<le> round_val y" by (rule round_val_nonneg)
    finally show ?thesis .
  next
    case False
    then have "0 < - y" by simp
    moreover from assms have "- y \<le> - x" by simp
    ultimately have "round_val (- y) \<le> round_val (- x)" by (rule round_val_pos_mono)
    then show ?thesis by (simp add: round_val_minus)
  qed
qed

lemma round_double_Finite:
  "round_double x = Finite v \<Longrightarrow> v = round_val x \<and> - (2 ^ 1024) < v \<and> v < 2 ^ 1024"
  by (auto simp: round_double_def Let_def split: if_splits)



lemma expo_unique:
  assumes "0 < x" and lo: "2 powi e \<le> x" and hi: "x < 2 powi (e + 1)"
  shows "expo x = e"
proof (rule antisym)
  show "expo x \<le> e"
  proof (rule ccontr)
    assume "\<not> expo x \<le> e"
    then have "e + 1 \<le> expo x" by simp
    then have "(2::rat) powi (e + 1) \<le> 2 powi expo x" by (rule two_powi_mono)
    also from expo_bounds [OF assms(1)] have "\<dots> \<le> x" by simp
    finally show False using hi by simp
  qed
  show "e \<le> expo x"
  proof (rule ccontr)
    assume "\<not> e \<le> expo x"
    then have "expo x + 1 \<le> e" by simp
    then have "(2::rat) powi (expo x + 1) \<le> 2 powi e" by (rule two_powi_mono)
    also note lo
    finally show False using expo_bounds [OF assms(1)] by simp
  qed
qed

lemma round_val_at:
  assumes "0 < x" and "2 powi e \<le> x" and "x < 2 powi (e + 1)"
  shows "round_val x = of_int (rhe (x / 2 powi max (e - 52) (- 1074))) * 2 powi max (e - 52) (- 1074)"
  using round_val_pos [OF assms(1)] expo_unique [OF assms] by simp


lemma rhe_near:
  assumes "\<bar>t - of_int m\<bar> < 1 / 2"
  shows "rhe t = m"
proof -
  from assms have lo: "of_int m - 1 / 2 < t" and hi: "t < of_int m + 1 / 2"
    by linarith+
  show ?thesis
  proof (cases "of_int m \<le> t")
    case True
    have "\<lfloor>t\<rfloor> = m"
    proof (rule floor_unique)
      show "of_int m \<le> t" by (rule True)
      show "t < of_int m + 1" using hi by simp
    qed
    with hi show ?thesis by (simp add: rhe_def Let_def)
  next
    case False
    have f: "\<lfloor>t\<rfloor> = m - 1"
    proof (rule floor_unique)
      show "of_int (m - 1) \<le> t" using lo by simp
      show "t < of_int (m - 1) + 1" using False by simp
    qed
    from lo have "1 / 2 < t - of_int (m - 1)" by simp
    with f show ?thesis by (simp add: rhe_def Let_def)
  qed
qed



lemma round_val_exact:
  assumes x: "0 < x" and lo: "2 powi e \<le> x" and hi: "x < 2 powi (e + 1)"
    and m: "x = of_int m * 2 powi max (e - 52) (- 1074)"
  shows "round_val x = x"
proof -
  let ?p = "max (e - 52) (- 1074)"
  have "x / 2 powi ?p = of_int m" by (subst m) simp
  then have "rhe (x / 2 powi ?p) = m" by (simp only: rhe_of_int)
  with round_val_at [OF x lo hi] m show ?thesis by simp
qed

lemma round_val_int:
  assumes "0 < n" and "n < 2 ^ 53"
  shows "round_val (of_int n) = of_int n"
proof -
  let ?x = "of_int n :: rat"
  from assms(1) have x: "0 < ?x" by simp
  let ?e = "expo ?x"
  note b = expo_bounds [OF x]
  have e0: "0 \<le> ?e"
  proof (rule ccontr)
    assume "\<not> 0 \<le> ?e"
    then have "?e + 1 \<le> 0" by simp
    then have "(2::rat) powi (?e + 1) \<le> 2 powi 0" by (rule two_powi_mono)
    with b have "?x < 1" by simp
    with assms(1) show False by simp
  qed
  have e52: "?e \<le> 52"
  proof (rule ccontr)
    assume "\<not> ?e \<le> 52"
    then have "53 \<le> ?e" by simp
    then have "(2::rat) powi 53 \<le> 2 powi ?e" by (rule two_powi_mono)
    with b have "(2::rat) ^ 53 \<le> ?x" by simp
    moreover from assms(2) have "?x < of_int (2 ^ 53)" by (simp only: of_int_less_iff)
    ultimately show False by simp
  qed
  let ?k = "52 - ?e"
  from e0 e52 have p: "max (?e - 52) (- 1074) = - ?k" by simp
  from e52 have k: "0 \<le> ?k" by simp
  have "(2::rat) powi ?k * 2 powi (- ?k) = 2 powi (?k + - ?k)" by (rule two_powi_add [symmetric])
  then have inv: "(2::rat) powi ?k * 2 powi (- ?k) = 1" by simp
  have "?x = ?x * (2 powi ?k * 2 powi (- ?k))" by (simp only: inv mult_1_right)
  also have "\<dots> = (?x * of_int (2 ^ nat ?k)) * 2 powi (- ?k)"
    using k by (simp only: two_powi_nat mult.assoc)
  also have "\<dots> = of_int (n * 2 ^ nat ?k) * 2 powi (- ?k)" by simp
  finally have "?x = of_int (n * 2 ^ nat ?k) * 2 powi max (?e - 52) (- 1074)" by (simp only: p)
  with x b show ?thesis by (intro round_val_exact [where e = ?e and m = "n * 2 ^ nat ?k"]) simp_all
qed

lemma round_double_int:
  assumes "\<bar>n\<bar> < 2 ^ 53"
  shows "round_double (of_int n) = Finite (of_int n)"
proof -
  have v: "round_val (of_int n) = of_int n"
  proof (cases "0 < n")
    case True
    with assms show ?thesis by (intro round_val_int) simp_all
  next
    case False
    show ?thesis
    proof (cases "n = 0")
      case True
      then show ?thesis by (simp add: round_val_def)
    next
      case nz: False
      with False assms have "0 < - n" "- n < 2 ^ 53" by simp_all
      then have "round_val (of_int (- n)) = of_int (- n)" by (rule round_val_int)
      then have "round_val (- of_int n) = - of_int n" by simp
      then show ?thesis by (simp add: round_val_minus)
    qed
  qed
  from assms have "(of_int \<bar>n\<bar> :: rat) < of_int (2 ^ 53)" by (simp only: of_int_less_iff)
  then have "\<bar>of_int n :: rat\<bar> < 2 ^ 53" by simp
  moreover have "(2::rat) ^ 53 < 2 ^ 1024" by simp
  ultimately have "\<bar>of_int n :: rat\<bar> < 2 ^ 1024" by (rule less_trans)
  then have "- (2 ^ 1024) < (of_int n :: rat)" "(of_int n :: rat) < 2 ^ 1024" by linarith+
  with v show ?thesis by (simp add: round_double_def Let_def)
qed



subsection \<open>Evaluating the aggregation\<close>

lemma rd_0: "round_double 0 = Finite 0" using round_double_int [of 0] by simp







text \<open>\<open>10 ^ 309\<close> is above \<open>2 ^ 1024\<close>, which rounds to itself, and rounding is monotone.\<close>

lemma overflow_at: "int_to_double (10 ^ 309) = Inl OverflowError"
proof -
  have "round_val (2 ^ 1024) = 2 ^ 1024"
    by (subst round_val_at [where e = 1024]) (simp_all add: rhe_near [where m = "2 ^ 52"])
  moreover have "round_val (2 ^ 1024) \<le> round_val (of_int (10 ^ 309))"
    by (rule round_val_mono) simp
  ultimately have "2 ^ 1024 \<le> round_val (of_int (10 ^ 309))" by simp
  then show ?thesis by (simp add: int_to_double_def round_double_def)
qed

lemma first_count_overflow:
  assumes "int_to_double cnt = Inl OverflowError"
  shows "compute_top10_m [(key, [(orig, Some a, cnt)])] peak = Inl OverflowError"
proof -
  from assms have "cnt \<noteq> 0" by (auto simp: int_to_double_def rd_0)
  with assms show ?thesis by (simp add: compute_top10_m_def aggregate_m_def)
qed

text \<open>The whole engine on the two anagram keys, where every operation is exact.\<close>

lemma machine_engine_example:
  "compute_top10_m
     [(''jowar'', [(''Jowar'', Some (Finite 50), 4)]), (''jawor'', [(''Jawor'', Some (Finite 70), 6)])]
     [''jowar'' \<mapsto> Finite 10]
   = Inr [(''Jowar'', Finite 62, Finite 10)]"
  using round_double_int [of 4] round_double_int [of 6] round_double_int [of 10]
    round_double_int [of 50] round_double_int [of 70] round_double_int [of 200]
    round_double_int [of 420] round_double_int [of 620] round_double_int [of 62]
    round_double_int [of 0]
  by (simp add: compute_top10_m_def aggregate_m_def int_to_double_def merge_step_m_def
      merge_into_m_def dict_get_def signature_def py_or_m_def truthy_m_def sort_desc_m_def)

subsection \<open>The mean and the interval of the entry averages\<close>











subsection \<open>What the engine can raise\<close>

text \<open>
  Claim C9 at a count beyond the range of a double. \<^verbatim>\<open>int()\<close> accepts the count
  \<open>10 ^ 309\<close>; in the first loop \<^verbatim>\<open>avg * cnt\<close> converts it to a float and raises
  OverflowError, so the engine does not return a list.
\<close>

theorem count_overflow_failing:
  "compute_top10_m [(''a'', [(''a'', Some (Finite 1), 10 ^ 309)])] [''a'' \<mapsto> Finite 1]
     = Inl OverflowError"
  using overflow_at by (rule first_count_overflow)

text \<open>
  On a day table in which every key has an entry, and so on every table the loader
  builds, an overflowing conversion of a count is the only thing the engine can raise.
\<close>

lemma int_to_double_error: "int_to_double n = Inl e \<Longrightarrow> e = OverflowError"
  by (auto simp: int_to_double_def split: double.splits)

lemma int_to_double_positive:
  assumes "0 < n" and "int_to_double n = Inr c"
  shows "\<exists>v. c = Finite v \<and> v \<noteq> 0"
proof -
  obtain v where c: "c = Finite v" and r: "round_double (of_int n) = Finite v"
  proof (cases "round_double (of_int n)")
    case (Finite v)
    with assms(2) have "c = Finite v" by (simp add: int_to_double_def)
    with Finite that show ?thesis by simp
  qed (use assms(2) in \<open>simp_all add: int_to_double_def\<close>)
  from round_double_Finite [OF r] have v: "v = round_val (of_int n)" by simp
  have "round_val (of_int 1) = of_int 1" by (rule round_val_int) simp_all
  moreover from assms(1) have "round_val (of_int 1) \<le> round_val (of_int n)"
    by (intro round_val_mono) simp
  ultimately have "1 \<le> v" using v by simp
  with c show ?thesis by auto
qed

lemma fdiv_nonzero: "v \<noteq> 0 \<Longrightarrow> \<exists>r. fdiv a (Finite v) = Inr r"
  by (cases a) simp_all

lemma agg_loop_m_error: "agg_loop_m es acc = Inl e \<Longrightarrow> e = OverflowError"
proof (induction es arbitrary: acc)
  case Nil
  then show ?case by simp
next
  case (Cons x es)
  obtain orig avg cnt where x: "x = (orig, avg, cnt)" by (cases x)
  obtain tw tc nm where acc: "acc = (tw, tc, nm)" by (cases acc)
  show ?case
  proof (cases "avg = None \<or> cnt = 0")
    case True
    show ?thesis
    proof (cases "avg \<noteq> None \<and> cnt = 0")
      case t: True
      with Cons.prems x acc have "agg_loop_m es (fadd tw (the avg), tc + 1, nm) = Inl e" by simp
      then show ?thesis by (rule Cons.IH)
    next
      case f: False
      with True Cons.prems x acc have "agg_loop_m es (tw, tc, nm) = Inl e" by auto
      then show ?thesis by (rule Cons.IH)
    qed
  next
    case False
    show ?thesis
    proof (cases "int_to_double cnt")
      case (Inl err)
      with False Cons.prems x acc have "e = err" by auto
      with Inl show ?thesis by (simp add: int_to_double_error)
    next
      case (Inr c)
      with False Cons.prems x acc
      have "agg_loop_m es (fadd tw (fmul (the avg) c), tc + cnt, orig) = Inl e" by auto
      then show ?thesis by (rule Cons.IH)
    qed
  qed
qed

lemma aggregate_m_error:
  assumes "es \<noteq> []" and "aggregate_m es = Inl e"
  shows "e = OverflowError"
proof -
  from assms(1) obtain x es' where es: "es = x # es'" by (cases es) auto
  show ?thesis
  proof (cases "agg_loop_m es (Finite 0, 0, fst x)")
    case (Inl err)
    with assms(2) es have "e = err" by (simp add: aggregate_m_def)
    with Inl show ?thesis by (simp add: agg_loop_m_error)
  next
    case (Inr r)
    obtain tw tc nm where r: "r = (tw, tc, nm)" by (cases r)
    show ?thesis
    proof (cases "0 < tc")
      case False
      with Inr r assms(2) es show ?thesis by (simp add: aggregate_m_def)
    next
      case True
      show ?thesis
      proof (cases "int_to_double tc")
        case (Inl err)
        with True Inr r assms(2) es have "e = err" by (simp add: aggregate_m_def)
        with Inl show ?thesis by (simp add: int_to_double_error)
      next
        case c: (Inr c)
        from int_to_double_positive [OF True c] obtain v where "c = Finite v" "v \<noteq> 0" by blast
        with fdiv_nonzero [of v tw] obtain q where "fdiv tw c = Inr q" by auto
        with True Inr r c assms(2) es show ?thesis by (simp add: aggregate_m_def)
      qed
    qed
  qed
qed

lemma aggregate_all_m_error:
  "entries_nonempty day \<Longrightarrow> aggregate_all_m day m = Inl e \<Longrightarrow> e = OverflowError"
proof (induction day arbitrary: m)
  case Nil
  then show ?case by simp
next
  case (Cons x day)
  obtain key entries where x: "x = (key, entries)" by (cases x)
  from Cons.prems(1) x have ne: "entries \<noteq> []" and rest: "entries_nonempty day"
    by (simp_all add: entries_nonempty_def)
  show ?case
  proof (cases "aggregate_m entries")
    case (Inl err)
    with Cons.prems(2) x have "e = err" by simp
    with Inl ne show ?thesis by (simp add: aggregate_m_error)
  next
    case (Inr ro)
    with Cons.prems(2) x have "\<exists>m'. aggregate_all_m day m' = Inl e"
      by (cases ro) auto
    then show ?thesis using Cons.IH [OF rest] by blast
  qed
qed

lemma merge_into_m_error: "merge_into_m prev cur = Inl e \<Longrightarrow> e = OverflowError"
proof -
  assume a: "merge_into_m prev cur = Inl e"
  obtain pn pa pc where p: "prev = (pn, pa, pc)" by (cases prev)
  obtain n av c where c: "cur = (n, av, c)" by (cases cur)
  show ?thesis
  proof (cases "0 < pc + c")
    case False
    with a p c show ?thesis by (simp add: merge_into_m_def)
  next
    case True
    show ?thesis
    proof (cases "int_to_double pc")
      case (Inl err)
      with True a p c have "e = err" by (simp add: merge_into_m_def)
      with Inl show ?thesis by (simp add: int_to_double_error)
    next
      case dp: (Inr dp)
      show ?thesis
      proof (cases "int_to_double c")
        case (Inl err)
        with True dp a p c have "e = err" by (simp add: merge_into_m_def)
        with Inl show ?thesis by (simp add: int_to_double_error)
      next
        case dc: (Inr dc)
        show ?thesis
        proof (cases "int_to_double (pc + c)")
          case (Inl err)
          with True dp dc a p c have "e = err" by (simp add: merge_into_m_def Let_def)
          with Inl show ?thesis by (simp add: int_to_double_error)
        next
          case dt: (Inr dt)
          from int_to_double_positive [OF True dt] obtain v where v: "dt = Finite v" "v \<noteq> 0"
            by blast
          let ?tw = "fadd (fmul (the (py_or_m pa (Some (Finite 0)))) dp)
                          (fmul (the (py_or_m av (Some (Finite 0)))) dc)"
          from fdiv_nonzero [OF v(2), of ?tw] v(1) obtain q where "fdiv ?tw dt = Inr q" by auto
          with True dp dc dt a p c show ?thesis by (simp add: merge_into_m_def Let_def)
        qed
      qed
    qed
  qed
qed

lemma merge_step_m_error: "merge_step_m f key cur = Inl e \<Longrightarrow> e = OverflowError"
proof (cases "find_existing (map fst f) (signature key)")
  case None
  assume "merge_step_m f key cur = Inl e"
  with None show ?thesis by (simp add: merge_step_m_def)
next
  case (Some k0)
  assume a: "merge_step_m f key cur = Inl e"
  from find_existing_Some [OF Some] have "k0 \<in> fst ` set f" by simp
  from map_of_keys [OF this] obtain prev where prev: "map_of f k0 = Some prev" by blast
  show ?thesis
  proof (cases "k0 = []")
    case True
    with Some a show ?thesis by (simp add: merge_step_m_def)
  next
    case False
    show ?thesis
    proof (cases "merge_into_m prev cur")
      case (Inl err)
      with False Some prev a have "e = err" by (simp add: merge_step_m_def dict_get_def)
      with Inl show ?thesis by (simp add: merge_into_m_error)
    next
      case (Inr new)
      with False Some prev a show ?thesis by (simp add: merge_step_m_def dict_get_def)
    qed
  qed
qed

lemma equivalence_merge_m_error: "equivalence_merge_m m f = Inl e \<Longrightarrow> e = OverflowError"
proof (induction m arbitrary: f)
  case Nil
  then show ?case by simp
next
  case (Cons x m)
  obtain key cur where x: "x = (key, cur)" by (cases x)
  show ?case
  proof (cases "merge_step_m f key cur")
    case (Inl err)
    with Cons.prems x have "e = err" by simp
    with Inl show ?thesis by (simp add: merge_step_m_error)
  next
    case (Inr f')
    with Cons.prems x have "equivalence_merge_m m f' = Inl e" by simp
    then show ?thesis by (rule Cons.IH)
  qed
qed

lemma compute_top10_m_error:
  assumes "entries_nonempty day"
  shows "(\<exists>r. compute_top10_m day peak = Inr r) \<or> compute_top10_m day peak = Inl OverflowError"
proof (cases "aggregate_all_m day []")
  case (Inl e)
  with aggregate_all_m_error [OF assms Inl] show ?thesis by (simp add: compute_top10_m_def)
next
  case (Inr merged)
  show ?thesis
  proof (cases "equivalence_merge_m merged []")
    case (Inl e)
    with equivalence_merge_m_error [OF Inl] Inr show ?thesis by (simp add: compute_top10_m_def)
  next
    case fm: (Inr fm)
    with Inr show ?thesis by (simp add: compute_top10_m_def)
  qed
qed

lemma loaded_engine_error:
  "(\<exists>r. compute_top10_m (load_day_averages lower rows) peak = Inr r) \<or>
   compute_top10_m (load_day_averages lower rows) peak = Inl OverflowError"
  using load_day_averages_nonempty by (rule compute_top10_m_error)

end
